theory Spec2Isabelle
  imports Main "HOL-Library.Multiset" "HOL-Library.Sublist" "HOL-Library.AList"
begin

section \<open>Partitioning the entry list (utils.py)\<close>

text \<open>
  Python's extended slice \<^verbatim>\<open>seq[start::step]\<close> for a non-negative start and a positive
  step: the start is clipped to the length, the slice has
  \<^verbatim>\<open>(len - start - 1) // step + 1\<close> elements when the start is inside the list and none
  otherwise, and element \<open>j\<close> of the slice is \<^verbatim>\<open>seq[start + j * step]\<close>.
\<close>

definition py_slice_step :: "'a list \<Rightarrow> nat \<Rightarrow> nat \<Rightarrow> 'a list" where
  "py_slice_step seq start step =
     (let n = length seq;
          s = min start n;
          len = (if s < n then (n - s - 1) div step + 1 else 0)
      in map (\<lambda>j. seq ! (s + j * step)) [0..<len])"

text \<open>\<^verbatim>\<open>chunk_list(seq, size)\<close> is \<^verbatim>\<open>[seq[i::size] for i in range(size)]\<close>.\<close>

definition chunk_list :: "'a list \<Rightarrow> nat \<Rightarrow> 'a list list" where
  "chunk_list seq sz = map (\<lambda>i. py_slice_step seq i sz) [0..<sz]"


section \<open>The filesystem and its environment\<close>

text \<open>
  A path is the list of its components, read from the filesystem root. A relative path is
  the list of the components below a root, and \<^verbatim>\<open>root / relative\<close> is list append.
  File contents are byte strings.
\<close>

type_synonym path = "string list"
type_synonym bytes = string

datatype node = File bytes | Dir

text \<open>
  The exceptions the program distinguishes. All of them are subclasses of Python's
  \<^verbatim>\<open>Exception\<close>; all but \<open>ValueError\<close> and \<open>TypeError\<close> are subclasses of
  \<^verbatim>\<open>OSError\<close> (which is \<^verbatim>\<open>IOError\<close>).
\<close>

datatype error =
    FileNotFoundError | IsADirectoryError | NotADirectoryError | FileExistsError
  | PermissionError | OSError | ValueError | TypeError

fun is_OSError :: "error \<Rightarrow> bool" where
  "is_OSError ValueError = False"
| "is_OSError TypeError = False"
| "is_OSError _ = True"

text \<open>
  The filesystem calls the program makes, and what the environment may do to one of them:
  make it fail with an error (a permission, an I/O failure), or remove its target just
  before the call runs (another process deleting it between a check and its use).
\<close>

datatype fsop =
    Op_open_rb | Op_open_wb | Op_read | Op_write | Op_mkdir | Op_unlink | Op_rmdir | Op_iterdir

datatype interference = Fails error | Vanished

text \<open>What the program writes to its logger, and the calls of its own functions.\<close>

datatype level = INFO | WARNING | ERROR

datatype message =
    Checksum_file_not_found path
  | Checksum_ioerror path error
  | Checksum_unexpected path error
  | Created_folder path
  | Failed_create_folder path error
  | Unexpected_create_folder path error
  | File_replaced path path
  | File_copied path path
  | Failed_replace path error
  | Failed_copy path path error
  | Deleted_file path
  | Deleted_folder path
  | File_already_deleted path
  | Folder_already_deleted path
  | Delete_error path error

datatype event =
    Log level message
  | Call_synchronize_folders "path list"
  | Call_clean_up_replica "path list"
  | Call_create_folder path
  | Call_replicate_file path path
  | Call_calculate_checksum path
  | Call_copy_or_replace_file path path bool
  | Call_delete_path path
  | Thread_exception error

text \<open>
  The state: the directory entries in the order the operating system lists them, the
  environment, and the trace of calls and log records so far.
\<close>

record state =
  files :: "(path \<times> node) list"
  faults :: "fsop \<Rightarrow> path \<Rightarrow> interference option"
  trace :: "event list"

definition emit :: "event \<Rightarrow> state \<Rightarrow> state" where
  "emit ev st = st\<lparr>trace := trace st @ [ev]\<rparr>"

definition logger :: "level \<Rightarrow> message \<Rightarrow> state \<Rightarrow> state" where
  "logger lvl m st = emit (Log lvl m) st"

subsection \<open>Queries: \<^verbatim>\<open>Path.exists\<close>, \<^verbatim>\<open>Path.is_file\<close>, \<^verbatim>\<open>Path.is_dir\<close>\<close>

definition lookup :: "state \<Rightarrow> path \<Rightarrow> node option" where
  "lookup st p = map_of (files st) p"

definition path_exists :: "state \<Rightarrow> path \<Rightarrow> bool" where
  "path_exists st p = (lookup st p \<noteq> None)"

definition is_file :: "state \<Rightarrow> path \<Rightarrow> bool" where
  "is_file st p = (case lookup st p of Some (File c) \<Rightarrow> True | _ \<Rightarrow> False)"

definition is_dir :: "state \<Rightarrow> path \<Rightarrow> bool" where
  "is_dir st p = (case lookup st p of Some Dir \<Rightarrow> True | _ \<Rightarrow> False)"

definition file_bytes :: "state \<Rightarrow> path \<Rightarrow> bytes" where
  "file_bytes st p = (case lookup st p of Some (File c) \<Rightarrow> c | _ \<Rightarrow> [])"

text \<open>Some proper ancestor of the path is a regular file (the system answers ENOTDIR).\<close>

definition under_file :: "state \<Rightarrow> path \<Rightarrow> bool" where
  "under_file st p = list_ex (is_file st) (butlast (prefixes p))"

definition children :: "state \<Rightarrow> path \<Rightarrow> path list" where
  "children st p = filter (\<lambda>q. q \<noteq> [] \<and> butlast q = p) (map fst (files st))"

subsection \<open>Updates\<close>

definition put :: "state \<Rightarrow> path \<Rightarrow> node \<Rightarrow> state" where
  "put st p n = st\<lparr>files := AList.update p n (files st)\<rparr>"

definition remove :: "state \<Rightarrow> path \<Rightarrow> state" where
  "remove st p = st\<lparr>files := filter (\<lambda>e. fst e \<noteq> p) (files st)\<rparr>"

definition remove_tree :: "state \<Rightarrow> path \<Rightarrow> state" where
  "remove_tree st p = st\<lparr>files := filter (\<lambda>e. \<not> prefix p (fst e)) (files st)\<rparr>"

definition interfere :: "fsop \<Rightarrow> state \<Rightarrow> path \<Rightarrow> error + state" where
  "interfere op st p =
     (case faults st op p of
        None \<Rightarrow> Inr st
      | Some (Fails e) \<Rightarrow> Inl e
      | Some Vanished \<Rightarrow> Inr (remove_tree st p))"

subsection \<open>The filesystem calls\<close>

text \<open>\<^verbatim>\<open>path.open('rb')\<close>: the handle is the content to be read.\<close>

definition open_rb :: "state \<Rightarrow> path \<Rightarrow> (error + bytes) \<times> state" where
  "open_rb st p =
     (case interfere Op_open_rb st p of
        Inl e \<Rightarrow> (Inl e, st)
      | Inr st1 \<Rightarrow>
          (case lookup st1 p of
             Some (File c) \<Rightarrow> (Inr c, st1)
           | Some Dir \<Rightarrow> (Inl IsADirectoryError, st1)
           | None \<Rightarrow>
               (Inl (if under_file st1 p then NotADirectoryError else FileNotFoundError), st1)))"

text \<open>\<^verbatim>\<open>path.open('wb')\<close>: the file is created, or truncated when it exists.\<close>

definition open_wb :: "state \<Rightarrow> path \<Rightarrow> (error + unit) \<times> state" where
  "open_wb st p =
     (case interfere Op_open_wb st p of
        Inl e \<Rightarrow> (Inl e, st)
      | Inr st1 \<Rightarrow>
          (case lookup st1 p of
             Some Dir \<Rightarrow> (Inl IsADirectoryError, st1)
           | Some (File c) \<Rightarrow> (Inr (), put st1 p (File []))
           | None \<Rightarrow>
               if under_file st1 p then (Inl NotADirectoryError, st1)
               else if p \<noteq> [] \<and> is_dir st1 (butlast p) then (Inr (), put st1 p (File []))
               else (Inl FileNotFoundError, st1)))"

text \<open>\<^verbatim>\<open>f.write(chunk)\<close> on a handle opened for writing appends the chunk.\<close>

definition write_bytes :: "state \<Rightarrow> path \<Rightarrow> bytes \<Rightarrow> (error + unit) \<times> state" where
  "write_bytes st p chunk =
     (case faults st Op_write p of
        Some (Fails e) \<Rightarrow> (Inl e, st)
      | _ \<Rightarrow>
          (case lookup st p of
             Some (File c) \<Rightarrow> (Inr (), put st p (File (c @ chunk)))
           | _ \<Rightarrow> (Inr (), st)))"

text \<open>\<^verbatim>\<open>f.read(n)\<close> on a handle fails when the environment says so.\<close>

definition read_error :: "state \<Rightarrow> path \<Rightarrow> error option" where
  "read_error st p = (case faults st Op_read p of Some (Fails e) \<Rightarrow> Some e | _ \<Rightarrow> None)"

text \<open>
  \<^verbatim>\<open>path.mkdir(parents=True, exist_ok=True)\<close>: every missing ancestor and the directory
  itself are created; an ancestor that is a regular file, or a regular file at the path,
  is an error.
\<close>

definition mkdir_parents :: "state \<Rightarrow> path \<Rightarrow> (error + unit) \<times> state" where
  "mkdir_parents st p =
     (case interfere Op_mkdir st p of
        Inl e \<Rightarrow> (Inl e, st)
      | Inr st1 \<Rightarrow>
          if under_file st1 p then (Inl NotADirectoryError, st1)
          else if is_file st1 p then (Inl FileExistsError, st1)
          else (Inr (), foldl (\<lambda>s q. if path_exists s q then s else put s q Dir) st1 (prefixes p)))"

definition unlink :: "state \<Rightarrow> path \<Rightarrow> (error + unit) \<times> state" where
  "unlink st p =
     (case interfere Op_unlink st p of
        Inl e \<Rightarrow> (Inl e, st)
      | Inr st1 \<Rightarrow>
          (case lookup st1 p of
             Some (File c) \<Rightarrow> (Inr (), remove st1 p)
           | Some Dir \<Rightarrow> (Inl IsADirectoryError, st1)
           | None \<Rightarrow>
               (Inl (if under_file st1 p then NotADirectoryError else FileNotFoundError), st1)))"

definition rmdir :: "state \<Rightarrow> path \<Rightarrow> (error + unit) \<times> state" where
  "rmdir st p =
     (case interfere Op_rmdir st p of
        Inl e \<Rightarrow> (Inl e, st)
      | Inr st1 \<Rightarrow>
          (case lookup st1 p of
             Some Dir \<Rightarrow> if children st1 p = [] then (Inr (), remove st1 p) else (Inl OSError, st1)
           | Some (File c) \<Rightarrow> (Inl NotADirectoryError, st1)
           | None \<Rightarrow>
               (Inl (if under_file st1 p then NotADirectoryError else FileNotFoundError), st1)))"

text \<open>\<^verbatim>\<open>path.iterdir()\<close>: the entries of a directory, listed when the loop starts.\<close>

definition iterdir :: "state \<Rightarrow> path \<Rightarrow> (error + path list) \<times> state" where
  "iterdir st p =
     (case interfere Op_iterdir st p of
        Inl e \<Rightarrow> (Inl e, st)
      | Inr st1 \<Rightarrow>
          (case lookup st1 p of
             Some Dir \<Rightarrow> (Inr (children st1 p), st1)
           | Some (File c) \<Rightarrow> (Inl NotADirectoryError, st1)
           | None \<Rightarrow>
               (Inl (if under_file st1 p then NotADirectoryError else FileNotFoundError), st1)))"


section \<open>Enumerating a tree (\<^verbatim>\<open>Path.glob('**/*')\<close>)\<close>

text \<open>
  The recursive selector walks the directories below the root in pre-order, the root
  first, and for each of them yields its entries in listing order. Directory entries have
  distinct names, so the selector's set of yielded paths never filters anything.
\<close>

definition below :: "state \<Rightarrow> path \<Rightarrow> nat" where
  "below st p = length (filter (\<lambda>e. strict_prefix p (fst e)) (files st))"

lemma children_strict_prefix:
  "c \<in> set (children st p) \<Longrightarrow> strict_prefix p c \<and> c \<in> fst ` set (files st)"
proof -
  assume "c \<in> set (children st p)"
  then have c: "c \<noteq> []" "butlast c = p" "c \<in> fst ` set (files st)"
    by (auto simp: children_def)
  then have "c = p @ [last c]" by (metis append_butlast_last_id)
  then have "strict_prefix p c" by (metis strict_prefixI')
  with c show ?thesis by simp
qed

lemma below_child_less:
  assumes "c \<in> set (children st p)"
  shows "below st c < below st p"
proof -
  let ?xs = "files st"
  from children_strict_prefix[OF assms] obtain e where
    pc: "strict_prefix p c" and ein: "e \<in> set ?xs" and e: "fst e = c" by auto
  have "filter (\<lambda>e. strict_prefix c (fst e)) ?xs =
        filter (\<lambda>e. strict_prefix c (fst e)) (filter (\<lambda>e. strict_prefix p (fst e)) ?xs)"
    using pc by (auto intro!: filter_cong simp: strict_prefix_def dest: prefix_order.trans)
  moreover have "e \<in> set (filter (\<lambda>e. strict_prefix p (fst e)) ?xs)" using pc ein e by simp
  moreover have "\<not> strict_prefix c (fst e)" using e by simp
  ultimately show ?thesis unfolding below_def by (metis (no_types, lifting) length_filter_less)
qed

function iterate_directories :: "state \<Rightarrow> path \<Rightarrow> path list" where
  "iterate_directories st p =
     p # concat (map (iterate_directories st) (filter (is_dir st) (children st p)))"
  by pat_completeness auto

termination iterate_directories
  by (relation "measure (\<lambda>(st, p). below st p)") (auto intro: below_child_less)

definition glob_all :: "state \<Rightarrow> path \<Rightarrow> path list" where
  "glob_all st root =
     (if is_dir st root then concat (map (children st) (iterate_directories st root)) else [])"

text \<open>
  \<^verbatim>\<open>get_items_chunks\<close> returns the flat list of relative paths for one thread and the
  list of chunks otherwise.
\<close>

datatype items = Flat "path list" | Chunked "path list list"

definition get_items_chunks :: "state \<Rightarrow> path \<Rightarrow> nat \<Rightarrow> items" where
  "get_items_chunks st source_path number_of_threads =
     (let source_contents = glob_all st source_path;
          source_relative_paths = map (drop (length source_path)) source_contents
      in if number_of_threads = 1 then Flat source_relative_paths
         else Chunked (chunk_list source_relative_paths number_of_threads))"


section \<open>Checksums, folders and files (utils.py)\<close>

text \<open>
  The hash object accumulates the blocks it is fed; \<^verbatim>\<open>hexdigest\<close> is the digest
  function \<open>md5\<close>, a parameter of the model, of what was accumulated. The file is read in
  blocks of the given size until a read returns no bytes.
\<close>

function md5_update_blocks :: "nat \<Rightarrow> bytes \<Rightarrow> bytes \<Rightarrow> bytes" where
  "md5_update_blocks n rest acc =
     (if take n rest = [] then acc
      else md5_update_blocks n (drop n rest) (acc @ take n rest))"
  by pat_completeness auto
termination
  by (relation "measure (\<lambda>(n, rest, acc). length rest)") auto

definition calculate_checksum ::
  "(bytes \<Rightarrow> string) \<Rightarrow> state \<Rightarrow> path \<Rightarrow> (error + string) \<times> state" where
  "calculate_checksum md5 st0 file_path =
     (let st = emit (Call_calculate_checksum file_path) st0 in
      case (case open_rb st file_path of
              (Inl e, st1) \<Rightarrow> (Inl e, st1)
            | (Inr content, st1) \<Rightarrow>
                (case read_error st1 file_path of
                   Some e \<Rightarrow> (Inl e, st1)
                 | None \<Rightarrow> (Inr (md5 (md5_update_blocks 4096 content [])), st1))) of
        (Inr digest, st2) \<Rightarrow> (Inr digest, st2)
      | (Inl e, st2) \<Rightarrow>
          (Inl e,
           logger ERROR
             (if e = FileNotFoundError then Checksum_file_not_found file_path
              else if is_OSError e then Checksum_ioerror file_path e
              else Checksum_unexpected file_path e) st2))"

definition create_folder :: "state \<Rightarrow> path \<Rightarrow> (error + unit) \<times> state" where
  "create_folder st0 p =
     (let st = emit (Call_create_folder p) st0 in
      if \<not> path_exists st p then
        (case mkdir_parents st p of
           (Inr u, st1) \<Rightarrow> (Inr (), logger INFO (Created_folder p) st1)
         | (Inl e, st1) \<Rightarrow>
             (Inl e,
              logger ERROR
                (if is_OSError e then Failed_create_folder p e
                 else Unexpected_create_folder p e) st1))
      else (Inr (), st))"

text \<open>The copy loop: read a chunk, stop when it is empty, write it.\<close>

function copy_loop :: "state \<Rightarrow> path \<Rightarrow> path \<Rightarrow> nat \<Rightarrow> bytes \<Rightarrow> (error + unit) \<times> state" where
  "copy_loop st src_file dest_file chunk_size rest =
     (case read_error st src_file of
        Some e \<Rightarrow> (Inl e, st)
      | None \<Rightarrow>
          if take chunk_size rest = [] then (Inr (), st)
          else (case write_bytes st dest_file (take chunk_size rest) of
                  (Inl e, st1) \<Rightarrow> (Inl e, st1)
                | (Inr u, st1) \<Rightarrow>
                    copy_loop st1 src_file dest_file chunk_size (drop chunk_size rest)))"
  by pat_completeness auto
termination
  by (relation "measure (\<lambda>(st, src_file, dest_file, chunk_size, rest). length rest)") auto

text \<open>
  Both files are opened, the source first; what is read is the source as it is once the
  destination has been opened (and truncated). Every exception is caught and logged.
\<close>

definition copy_or_replace_file ::
  "state \<Rightarrow> path \<Rightarrow> path \<Rightarrow> bool \<Rightarrow> nat \<Rightarrow> (error + unit) \<times> state" where
  "copy_or_replace_file st0 src_file dest_file replace chunk_size =
     (let st = emit (Call_copy_or_replace_file src_file dest_file replace) st0 in
      case (case open_rb st src_file of
              (Inl e, st1) \<Rightarrow> (Inl e, st1)
            | (Inr content, st1) \<Rightarrow>
                (case open_wb st1 dest_file of
                   (Inl e, st2) \<Rightarrow> (Inl e, st2)
                 | (Inr u, st2) \<Rightarrow>
                     copy_loop st2 src_file dest_file chunk_size (file_bytes st2 src_file))) of
        (Inr u, st3) \<Rightarrow>
          (Inr (),
           logger INFO
             (if replace then File_replaced dest_file src_file
              else File_copied src_file dest_file) st3)
      | (Inl e, st3) \<Rightarrow>
          (Inr (),
           logger ERROR
             (if replace then Failed_replace dest_file e
              else Failed_copy src_file dest_file e) st3))"

definition replicate_file ::
  "(bytes \<Rightarrow> string) \<Rightarrow> state \<Rightarrow> path \<Rightarrow> path \<Rightarrow> (error + unit) \<times> state" where
  "replicate_file md5 st0 source_item replica_item =
     (let st = emit (Call_replicate_file source_item replica_item) st0 in
      if path_exists st replica_item then
        (case calculate_checksum md5 st source_item of
           (Inl e, st1) \<Rightarrow> (Inl e, st1)
         | (Inr checksum_source, st1) \<Rightarrow>
             (case calculate_checksum md5 st1 replica_item of
                (Inl e, st2) \<Rightarrow> (Inl e, st2)
              | (Inr checksum_replica, st2) \<Rightarrow>
                  if checksum_source \<noteq> checksum_replica
                  then copy_or_replace_file st2 source_item replica_item True (1024 * 1024)
                  else (Inr (), st2)))
      else copy_or_replace_file st source_item replica_item False (1024 * 1024))"


subsection \<open>\<^verbatim>\<open>delete_path\<close>\<close>

text \<open>
  The loop over the entries of a directory: a directory is deleted by the recursive call
  \<open>rec\<close>, anything else is unlinked. An exception leaves the loop.
\<close>

fun delete_items ::
  "(state \<Rightarrow> path \<Rightarrow> ((error + unit) \<times> state) option) \<Rightarrow> state \<Rightarrow> path list
     \<Rightarrow> ((error + unit) \<times> state) option" where
  "delete_items rec st [] = Some (Inr (), st)"
| "delete_items rec st (item # rest) =
     (if is_dir st item then
        (case rec st item of
           None \<Rightarrow> None
         | Some (Inl e, st1) \<Rightarrow> Some (Inl e, st1)
         | Some (Inr u, st1) \<Rightarrow> delete_items rec st1 rest)
      else
        (case unlink st item of
           (Inl e, st1) \<Rightarrow> Some (Inl e, st1)
         | (Inr u, st1) \<Rightarrow> delete_items rec st1 rest))"

text \<open>
  The body of the \<^verbatim>\<open>try\<close> and the two handlers. The recursion is bounded by its first
  argument, the number of nested calls allowed; \<open>None\<close> says that the bound was reached.
\<close>

primrec delete_path :: "nat \<Rightarrow> state \<Rightarrow> path \<Rightarrow> ((error + unit) \<times> state) option" where
  "delete_path 0 = (\<lambda>st0 p. None)"
| "delete_path (Suc n) = (\<lambda>st0 p.
     (let st = emit (Call_delete_path p) st0 in
      case (if is_file st p then
              (case unlink st p of
                 (Inl e, st1) \<Rightarrow> Some (Inl e, st1)
               | (Inr u, st1) \<Rightarrow> Some (Inr (), logger INFO (Deleted_file p) st1))
            else if is_dir st p then
              (case iterdir st p of
                 (Inl e, st1) \<Rightarrow> Some (Inl e, st1)
               | (Inr entries, st1) \<Rightarrow>
                   (case delete_items (delete_path n) st1 entries of
                      None \<Rightarrow> None
                    | Some (Inl e, st2) \<Rightarrow> Some (Inl e, st2)
                    | Some (Inr u, st2) \<Rightarrow>
                        (case rmdir st2 p of
                           (Inl e, st3) \<Rightarrow> Some (Inl e, st3)
                         | (Inr u, st3) \<Rightarrow> Some (Inr (), logger INFO (Deleted_folder p) st3))))
            else Some (Inr (), st)) of
        None \<Rightarrow> None
      | Some (Inr u, st4) \<Rightarrow> Some (Inr (), st4)
      | Some (Inl e, st4) \<Rightarrow>
          Some (Inr (),
            if e = FileNotFoundError then
              (if is_file st4 p then logger WARNING (File_already_deleted p) st4
               else if is_dir st4 p then logger WARNING (Folder_already_deleted p) st4
               else st4)
            else logger ERROR (Delete_error p e) st4)))"

text \<open>A call from outside is given one level for every entry of the filesystem.\<close>

definition delete_path_call :: "state \<Rightarrow> path \<Rightarrow> ((error + unit) \<times> state) option" where
  "delete_path_call st p = delete_path (Suc (length (files st))) st p"


section \<open>The two phases (main.py)\<close>

text \<open>The body of the loop of \<^verbatim>\<open>synchronize_folders\<close>, for one relative path.\<close>

definition synchronize_item ::
  "(bytes \<Rightarrow> string) \<Rightarrow> state \<Rightarrow> path \<Rightarrow> path \<Rightarrow> path \<Rightarrow> (error + unit) \<times> state" where
  "synchronize_item md5 st item_path source_path replica_path =
     (let item = source_path @ item_path in
      if is_dir st item then create_folder st (replica_path @ item_path)
      else if is_file st item then replicate_file md5 st item (replica_path @ item_path)
      else (Inr (), st))"

fun synchronize_loop ::
  "(bytes \<Rightarrow> string) \<Rightarrow> state \<Rightarrow> path list \<Rightarrow> path \<Rightarrow> path \<Rightarrow> (error + unit) \<times> state" where
  "synchronize_loop md5 st [] source_path replica_path = (Inr (), st)"
| "synchronize_loop md5 st (item_path # rest) source_path replica_path =
     (case synchronize_item md5 st item_path source_path replica_path of
        (Inl e, st1) \<Rightarrow> (Inl e, st1)
      | (Inr u, st1) \<Rightarrow> synchronize_loop md5 st1 rest source_path replica_path)"

definition synchronize_folders ::
  "(bytes \<Rightarrow> string) \<Rightarrow> state \<Rightarrow> path list \<Rightarrow> path \<Rightarrow> path \<Rightarrow> (error + unit) \<times> state" where
  "synchronize_folders md5 st item_list source_path replica_path =
     synchronize_loop md5 (emit (Call_synchronize_folders item_list) st) item_list
       source_path replica_path"

text \<open>The body of the loop of \<^verbatim>\<open>clean_up_replica\<close>, for one relative path.\<close>

definition clean_up_item ::
  "state \<Rightarrow> path \<Rightarrow> path \<Rightarrow> path \<Rightarrow> ((error + unit) \<times> state) option" where
  "clean_up_item st item_path source_path replica_path =
     (let item = replica_path @ item_path in
      if \<not> path_exists st (source_path @ item_path) then delete_path_call st item
      else Some (Inr (), st))"

fun clean_up_loop ::
  "state \<Rightarrow> path list \<Rightarrow> path \<Rightarrow> path \<Rightarrow> ((error + unit) \<times> state) option" where
  "clean_up_loop st [] source_path replica_path = Some (Inr (), st)"
| "clean_up_loop st (item_path # rest) source_path replica_path =
     (case clean_up_item st item_path source_path replica_path of
        None \<Rightarrow> None
      | Some (Inl e, st1) \<Rightarrow> Some (Inl e, st1)
      | Some (Inr u, st1) \<Rightarrow> clean_up_loop st1 rest source_path replica_path)"

definition clean_up_replica ::
  "state \<Rightarrow> path list \<Rightarrow> path \<Rightarrow> path \<Rightarrow> ((error + unit) \<times> state) option" where
  "clean_up_replica st item_list source_path replica_path =
     clean_up_loop (emit (Call_clean_up_replica item_list) st) item_list
       source_path replica_path"

definition process_without_threads ::
  "(bytes \<Rightarrow> string) \<Rightarrow> state \<Rightarrow> path list \<Rightarrow> path list \<Rightarrow> path \<Rightarrow> path
     \<Rightarrow> ((error + unit) \<times> state) option" where
  "process_without_threads md5 st source_items replica_items source_path replica_path =
     (case synchronize_folders md5 st source_items source_path replica_path of
        (Inl e, st1) \<Rightarrow> Some (Inl e, st1)
      | (Inr u, st1) \<Rightarrow> clean_up_replica st1 replica_items source_path replica_path)"


section \<open>Worker threads\<close>

text \<open>
  A thread runs \<^verbatim>\<open>synchronize_folders\<close> or \<^verbatim>\<open>clean_up_replica\<close> on its chunk. It is
  pending once started, then inside its loop with the entries still to handle, then
  finished. Handling one entry is one step: the lock serialises file replication and
  deletion. An exception that leaves the target ends the thread; the main thread does not
  see it.
\<close>

datatype target = Target_synchronize_folders | Target_clean_up_replica

datatype thread = Pending target "path list" | Running target "path list" | Finished

fun thread_step ::
  "(bytes \<Rightarrow> string) \<Rightarrow> path \<Rightarrow> path \<Rightarrow> state \<Rightarrow> thread \<Rightarrow> (thread \<times> state) option" where
  "thread_step md5 source_path replica_path st (Pending Target_synchronize_folders chunk) =
     Some (Running Target_synchronize_folders chunk, emit (Call_synchronize_folders chunk) st)"
| "thread_step md5 source_path replica_path st (Pending Target_clean_up_replica chunk) =
     Some (Running Target_clean_up_replica chunk, emit (Call_clean_up_replica chunk) st)"
| "thread_step md5 source_path replica_path st (Running tgt []) = Some (Finished, st)"
| "thread_step md5 source_path replica_path st
       (Running Target_synchronize_folders (item_path # rest)) =
     (case synchronize_item md5 st item_path source_path replica_path of
        (Inl e, st1) \<Rightarrow> Some (Finished, emit (Thread_exception e) st1)
      | (Inr u, st1) \<Rightarrow> Some (Running Target_synchronize_folders rest, st1))"
| "thread_step md5 source_path replica_path st
       (Running Target_clean_up_replica (item_path # rest)) =
     (case clean_up_item st item_path source_path replica_path of
        None \<Rightarrow> None
      | Some (Inl e, st1) \<Rightarrow> Some (Finished, emit (Thread_exception e) st1)
      | Some (Inr u, st1) \<Rightarrow> Some (Running Target_clean_up_replica rest, st1))"
| "thread_step md5 source_path replica_path st Finished = Some (Finished, st)"

text \<open>\<^verbatim>\<open>t.join()\<close> when no other thread is scheduled: the thread runs to its end.\<close>

fun join_thread ::
  "(bytes \<Rightarrow> string) \<Rightarrow> path \<Rightarrow> path \<Rightarrow> state \<Rightarrow> thread \<Rightarrow> state option" where
  "join_thread md5 source_path replica_path st (Pending Target_synchronize_folders chunk) =
     (case synchronize_folders md5 st chunk source_path replica_path of
        (Inl e, st1) \<Rightarrow> Some (emit (Thread_exception e) st1)
      | (Inr u, st1) \<Rightarrow> Some st1)"
| "join_thread md5 source_path replica_path st (Running Target_synchronize_folders rest) =
     (case synchronize_loop md5 st rest source_path replica_path of
        (Inl e, st1) \<Rightarrow> Some (emit (Thread_exception e) st1)
      | (Inr u, st1) \<Rightarrow> Some st1)"
| "join_thread md5 source_path replica_path st (Pending Target_clean_up_replica chunk) =
     (case clean_up_replica st chunk source_path replica_path of
        None \<Rightarrow> None
      | Some (Inl e, st1) \<Rightarrow> Some (emit (Thread_exception e) st1)
      | Some (Inr u, st1) \<Rightarrow> Some st1)"
| "join_thread md5 source_path replica_path st (Running Target_clean_up_replica rest) =
     (case clean_up_loop st rest source_path replica_path of
        None \<Rightarrow> None
      | Some (Inl e, st1) \<Rightarrow> Some (emit (Thread_exception e) st1)
      | Some (Inr u, st1) \<Rightarrow> Some st1)"
| "join_thread md5 source_path replica_path st Finished = Some st"

fun join_all ::
  "(bytes \<Rightarrow> string) \<Rightarrow> path \<Rightarrow> path \<Rightarrow> thread list \<Rightarrow> state \<Rightarrow> state option" where
  "join_all md5 source_path replica_path [] st = Some st"
| "join_all md5 source_path replica_path (t # ts) st =
     (case join_thread md5 source_path replica_path st t of
        None \<Rightarrow> None
      | Some st1 \<Rightarrow> join_all md5 source_path replica_path ts st1)"

text \<open>
  The started threads run until all are joined. The schedule says which live thread takes
  the next step (its number among the live ones, modulo their count); when the schedule
  ends, the threads finish one after the other.
\<close>

fun run_threads ::
  "(bytes \<Rightarrow> string) \<Rightarrow> path \<Rightarrow> path \<Rightarrow> nat list \<Rightarrow> thread list \<Rightarrow> state \<Rightarrow> state option" where
  "run_threads md5 source_path replica_path [] threads st =
     join_all md5 source_path replica_path threads st"
| "run_threads md5 source_path replica_path (k # sched) threads st =
     (let live = filter (\<lambda>i. threads ! i \<noteq> Finished) [0..<length threads] in
      if live = [] then Some st
      else
        (let i = live ! (k mod length live) in
         case thread_step md5 source_path replica_path st (threads ! i) of
           None \<Rightarrow> None
         | Some (t, st1) \<Rightarrow>
             run_threads md5 source_path replica_path sched (threads[i := t]) st1))"

text \<open>The threads one round of \<^verbatim>\<open>process_with_threads\<close> starts, in the order of the start.\<close>

definition start_threads :: "path list list \<Rightarrow> path list list \<Rightarrow> thread list" where
  "start_threads source_items replica_items =
     map (Pending Target_synchronize_folders) source_items
     @ map (Pending Target_clean_up_replica) replica_items"

definition process_with_threads ::
  "(bytes \<Rightarrow> string) \<Rightarrow> nat list \<times> nat list \<Rightarrow> state \<Rightarrow> path list list \<Rightarrow> path list list
     \<Rightarrow> path \<Rightarrow> path \<Rightarrow> ((error + unit) \<times> state) option" where
  "process_with_threads md5 scheds st source_items replica_items source_path replica_path =
     (case run_threads md5 source_path replica_path (fst scheds)
             (start_threads source_items replica_items) st of
        None \<Rightarrow> None
      | Some st1 \<Rightarrow>
          (case run_threads md5 source_path replica_path (snd scheds)
                  (start_threads source_items replica_items) st1 of
             None \<Rightarrow> None
           | Some st2 \<Rightarrow> Some (Inr (), st2)))"

text \<open>
  One pass. \<open>number_of_threads\<close> is \<^verbatim>\<open>cpu_count()\<close>, at least 1; the last case stands for
  the value 0, where both partitions are the empty list of chunks.
\<close>

definition process_syncronization ::
  "(bytes \<Rightarrow> string) \<Rightarrow> nat \<Rightarrow> nat list \<times> nat list \<Rightarrow> state \<Rightarrow> path \<Rightarrow> path
     \<Rightarrow> ((error + unit) \<times> state) option" where
  "process_syncronization md5 number_of_threads scheds st source_path replica_path =
     (let source_items = get_items_chunks st source_path number_of_threads;
          replica_items = get_items_chunks st replica_path number_of_threads
      in case (source_items, replica_items) of
           (Chunked cs, Chunked cr) \<Rightarrow>
             if number_of_threads > 1
             then process_with_threads md5 scheds st cs cr source_path replica_path
             else process_without_threads md5 st [] [] source_path replica_path
         | (Flat xs, Flat xr) \<Rightarrow>
             process_without_threads md5 st xs xr source_path replica_path
         | _ \<Rightarrow> Some (Inl TypeError, st))"

text \<open>
  Events of the propagate phase (folder creation, replication, checksums, copies and
  their log records) and of the prune phase (deletions and their log records).
\<close>

fun propagate_message :: "message \<Rightarrow> bool" where
  "propagate_message (Deleted_file p) = False"
| "propagate_message (Deleted_folder p) = False"
| "propagate_message (File_already_deleted p) = False"
| "propagate_message (Folder_already_deleted p) = False"
| "propagate_message (Delete_error p e) = False"
| "propagate_message m = True"

fun is_propagate_event :: "event \<Rightarrow> bool" where
  "is_propagate_event (Log lvl m) = propagate_message m"
| "is_propagate_event (Call_create_folder p) = True"
| "is_propagate_event (Call_replicate_file p q) = True"
| "is_propagate_event (Call_calculate_checksum p) = True"
| "is_propagate_event (Call_copy_or_replace_file p q r) = True"
| "is_propagate_event ev = False"

fun is_prune_event :: "event \<Rightarrow> bool" where
  "is_prune_event (Log lvl m) = (\<not> propagate_message m)"
| "is_prune_event (Call_delete_path p) = True"
| "is_prune_event ev = False"

text \<open>A trace respects the barrier when no propagate event follows a prune event.\<close>

fun barrier_respected :: "event list \<Rightarrow> bool" where
  "barrier_respected [] = True"
| "barrier_respected (ev # evs) =
     (if is_prune_event ev then list_all (\<lambda>x. \<not> is_propagate_event x) evs
      else barrier_respected evs)"

text \<open>The events a run added to the trace of the state it started from.\<close>

definition new_events :: "state \<Rightarrow> state \<Rightarrow> event list" where
  "new_events st st1 = drop (length (trace st)) (trace st1)"


section \<open>Example inputs\<close>

text \<open>A digest without collisions, and an environment that never interferes.\<close>

definition example_md5 :: "bytes \<Rightarrow> string" where
  "example_md5 content = content"

definition quiet :: "fsop \<Rightarrow> path \<Rightarrow> interference option" where
  "quiet op p = None"

text \<open>A source with a file that is gone when its entry is handled.\<close>

definition state_missing_entry :: state where
  "state_missing_entry =
     \<lparr>files = [([], Dir), ([''s''], Dir), ([''r''], Dir), ([''s'', ''b''], File ''Y'')],
      faults = quiet, trace = []\<rparr>"

text \<open>A replica folder that does not exist: the destination cannot be opened.\<close>

definition state_no_parent :: state where
  "state_no_parent =
     \<lparr>files = [([], Dir), ([''s''], Dir), ([''r''], Dir), ([''s'', ''a''], File ''X'')],
      faults = quiet, trace = []\<rparr>"

text \<open>A stale replica file that another process removes just before it is unlinked.\<close>

definition state_vanishing :: state where
  "state_vanishing =
     \<lparr>files = [([], Dir), ([''r''], Dir), ([''r'', ''stale''], File ''W'')],
      faults = (\<lambda>op p. if op = Op_unlink \<and> p = [''r'', ''stale''] then Some Vanished else None),
      trace = []\<rparr>"

text \<open>What a run returns, the entries it leaves and the trace it leaves.\<close>

definition observe :: "'r \<times> state \<Rightarrow> 'r \<times> (path \<times> node) list \<times> event list" where
  "observe x = (fst x, files (snd x), trace (snd x))"


section \<open>Notions used in the proofs\<close>

text \<open>
  \<open>tx P st st1\<close>: the second state has the environment of the first, and its trace is the
  trace of the first followed by events that all satisfy \<open>P\<close>.
\<close>

definition tx :: "(event \<Rightarrow> bool) \<Rightarrow> state \<Rightarrow> state \<Rightarrow> bool" where
  "tx P st st1 = (faults st1 = faults st \<and> (\<exists>t. trace st1 = trace st @ t \<and> list_all P t))"

text \<open>\<open>shrinks st st1\<close>: the entries of the second state are entries of the first, in order.\<close>

definition shrinks :: "state \<Rightarrow> state \<Rightarrow> bool" where
  "shrinks st st1 = (\<exists>P. files st1 = filter P (files st))"

definition pruned :: "state \<Rightarrow> state \<Rightarrow> bool" where
  "pruned st st1 = (tx is_prune_event st st1 \<and> shrinks st st1)"

text \<open>The body of the \<^verbatim>\<open>try\<close> of \<^verbatim>\<open>delete_path\<close>, as its definition has it.\<close>

definition delete_body ::
  "nat \<Rightarrow> state \<Rightarrow> path \<Rightarrow> ((error + unit) \<times> state) option" where
  "delete_body n st p =
     (if is_file st p then
        (case unlink st p of
           (Inl e, st1) \<Rightarrow> Some (Inl e, st1)
         | (Inr u, st1) \<Rightarrow> Some (Inr (), logger INFO (Deleted_file p) st1))
      else if is_dir st p then
        (case iterdir st p of
           (Inl e, st1) \<Rightarrow> Some (Inl e, st1)
         | (Inr entries, st1) \<Rightarrow>
             (case delete_items (delete_path n) st1 entries of
                None \<Rightarrow> None
              | Some (Inl e, st2) \<Rightarrow> Some (Inl e, st2)
              | Some (Inr u, st2) \<Rightarrow>
                  (case rmdir st2 p of
                     (Inl e, st3) \<Rightarrow> Some (Inl e, st3)
                   | (Inr u, st3) \<Rightarrow> Some (Inr (), logger INFO (Deleted_folder p) st3))))
      else Some (Inr (), st))"


section \<open>Properties of the partition\<close>

lemma stride_indices_set:
  fixes n i m :: nat
  assumes "0 < n" "i < n"
  shows "{k. k < m \<and> k mod n = i} =
         (\<lambda>j. i + j * n) ` {0..<(if i < m then (m - i - 1) div n + 1 else 0)}"
proof (intro set_eqI iffI)
  fix k assume "k \<in> {k. k < m \<and> k mod n = i}"
  then have km: "k < m" and kmod: "k mod n = i" by auto
  have keq: "k = i + (k div n) * n" using kmod mod_div_mult_eq[of k n] by simp
  have im: "i < m" using km keq by linarith
  have "(k div n) * n \<le> m - i - 1" using km keq by linarith
  then have "k div n \<le> (m - i - 1) div n" using assms(1)
    by (simp add: less_eq_div_iff_mult_less_eq)
  then show "k \<in> (\<lambda>j. i + j * n) ` {0..<(if i < m then (m - i - 1) div n + 1 else 0)}"
    using im keq by (intro image_eqI[where x = "k div n"]) auto
next
  fix k assume "k \<in> (\<lambda>j. i + j * n) ` {0..<(if i < m then (m - i - 1) div n + 1 else 0)}"
  then obtain j where jk: "k = i + j * n"
      and jin: "j \<in> {0..<(if i < m then (m - i - 1) div n + 1 else 0)}"
    by (rule imageE)
  from jk jin have j: "k = i + j * n" "j < (if i < m then (m - i - 1) div n + 1 else 0)"
    by simp_all
  then have im: "i < m" by (auto split: if_splits)
  from j im have "j \<le> (m - i - 1) div n" by simp
  then have "j * n \<le> ((m - i - 1) div n) * n" by simp
  also have "\<dots> \<le> m - i - 1" by simp
  finally have "k < m" using j(1) im by linarith
  moreover have "k mod n = i" using j(1) assms by simp
  ultimately show "k \<in> {k. k < m \<and> k mod n = i}" by simp
qed

lemma filter_mod_upt:
  fixes n i m :: nat
  assumes "0 < n" "i < n"
  shows "filter (\<lambda>k. k mod n = i) [0..<m] =
         map (\<lambda>j. i + j * n) [0..<(if i < m then (m - i - 1) div n + 1 else 0)]"
proof (rule sorted_distinct_set_unique)
  show "sorted (filter (\<lambda>k. k mod n = i) [0..<m])" by (simp add: sorted_wrt_filter)
  show "distinct (filter (\<lambda>k. k mod n = i) [0..<m])" by simp
  have mono: "strict_mono (\<lambda>j. i + j * n)" using assms(1) by (simp add: strict_mono_def)
  show "sorted (map (\<lambda>j. i + j * n) [0..<(if i < m then (m - i - 1) div n + 1 else 0)])"
    by (rule sorted_map[THEN iffD2]) (auto simp: sorted_wrt_iff_nth_less)
  show "distinct (map (\<lambda>j. i + j * n) [0..<(if i < m then (m - i - 1) div n + 1 else 0)])"
    using assms(1) by (auto simp: distinct_map inj_on_def)
  show "set (filter (\<lambda>k. k mod n = i) [0..<m]) =
        set (map (\<lambda>j. i + j * n) [0..<(if i < m then (m - i - 1) div n + 1 else 0)])"
    using stride_indices_set[OF assms, of m] by auto
qed

lemma nths_eq_map_filter:
  "nths xs A = map (nth xs) (filter (\<lambda>k. k \<in> A) [0..<length xs])"
proof (induction xs rule: rev_induct)
  case Nil
  then show ?case by simp
next
  case (snoc x xs)
  then show ?case by (auto simp: nths_append nth_append)
qed

lemma sum_image_filter_mset_mod:
  assumes "0 < n"
  shows "(\<Sum>i\<in>{0..<n}. image_mset f (filter_mset (\<lambda>k. k mod n = i) M)) = image_mset f (M :: nat multiset)"
proof (induction M)
  case empty
  then show ?case by simp
next
  case (add x M)
  have one: "(\<Sum>i\<in>{0..<n}. (if x mod n = i then {#f x#} else {#})) = {#f x#}"
    using assms by (simp add: sum.delta)
  have "(\<Sum>i\<in>{0..<n}. image_mset f (filter_mset (\<lambda>k. k mod n = i) (add_mset x M))) =
        (\<Sum>i\<in>{0..<n}. (if x mod n = i then {#f x#} else {#}) + image_mset f (filter_mset (\<lambda>k. k mod n = i) M))"
    by (rule sum.cong) auto
  also have "\<dots> = {#f x#} + image_mset f M"
    by (simp only: sum.distrib one add)
  finally show ?case by simp
qed

lemma py_slice_step_filter:
  assumes "0 < n" "i < n"
  shows "py_slice_step xs i n = map (nth xs) (filter (\<lambda>k. k mod n = i) [0..<length xs])"
proof (cases "i < length xs")
  case True
  then show ?thesis
    by (simp add: py_slice_step_def Let_def filter_mod_upt[OF assms] min_def o_def)
next
  case False
  then show ?thesis
    by (simp add: py_slice_step_def Let_def filter_mod_upt[OF assms] min_def)
qed

lemma mset_concat_map_upt:
  "mset (concat (map f [0..<n])) = (\<Sum>i\<in>{0..<n}. mset (f i))"
  by (induction n) (simp_all add: add.commute)

lemma mset_concat_chunk_list:
  assumes "0 < n"
  shows "mset (concat (chunk_list xs n)) = mset xs"
proof -
  have "mset (concat (chunk_list xs n)) =
        (\<Sum>i\<in>{0..<n}. mset (py_slice_step xs i n))"
    by (simp add: chunk_list_def mset_concat_map_upt)
  also have "\<dots> = (\<Sum>i\<in>{0..<n}. image_mset (nth xs) (filter_mset (\<lambda>k. k mod n = i) (mset [0..<length xs])))"
    by (rule sum.cong) (simp_all add: py_slice_step_filter[OF assms])
  also have "\<dots> = image_mset (nth xs) (mset [0..<length xs])"
    by (rule sum_image_filter_mset_mod[OF assms])
  also have "\<dots> = mset (map (nth xs) [0..<length xs])" by simp
  also have "\<dots> = mset xs" by (simp only: map_nth)
  finally show ?thesis .
qed


text \<open>
  C6. For every entry list and every worker count n of at least 1, chunk_list gives n
  chunks, the entry at index i is in chunk i mod n (at position i div n), the chunks
  together hold exactly the entries of the list, each as often as the list does, and for
  n = 1 the only chunk is the whole list. get_items_chunks returns the whole listing for
  one thread and such a partition of it otherwise.
\<close>

theorem chunk_list_partition:
  assumes "1 \<le> n"
  shows "length (chunk_list xs n) = n
       \<and> mset (concat (chunk_list xs n)) = mset xs
       \<and> (\<forall>i<length xs. i div n < length (chunk_list xs n ! (i mod n))
                        \<and> chunk_list xs n ! (i mod n) ! (i div n) = xs ! i)
       \<and> chunk_list xs 1 = [xs]
       \<and> (case get_items_chunks st root n of
            Flat ys \<Rightarrow> n = 1 \<and> ys = map (drop (length root)) (glob_all st root)
          | Chunked cs \<Rightarrow> n \<noteq> 1 \<and> length cs = n
              \<and> mset (concat cs) = mset (map (drop (length root)) (glob_all st root)))"
proof -
  have n: "0 < n" using assms by simp
  have len: "length (chunk_list ys n) = n" for ys :: "'b list"
    by (simp add: chunk_list_def)
  have idx: "i div n < length (chunk_list xs n ! (i mod n))
           \<and> chunk_list xs n ! (i mod n) ! (i div n) = xs ! i" if i: "i < length xs" for i
  proof -
    have r: "i mod n < n" using n by simp
    have ieq: "i mod n + i div n * n = i" by (simp add: mod_div_mult_eq)
    have rlt: "i mod n < length xs" using i mod_less_eq_dividend[of i n] by linarith
    have "i div n * n \<le> length xs - i mod n - 1" using i ieq by linarith
    then have "i div n \<le> (length xs - i mod n - 1) div n" using n
      by (simp add: less_eq_div_iff_mult_less_eq)
    then have d: "i div n < (length xs - i mod n - 1) div n + 1" by simp
    have c: "chunk_list xs n ! (i mod n) =
             map (\<lambda>j. xs ! (i mod n + j * n)) [0..<(length xs - i mod n - 1) div n + 1]"
      using r rlt by (simp add: chunk_list_def py_slice_step_def Let_def min_def)
    show ?thesis using d ieq by (simp add: c del: upt_Suc)
  qed
  have one: "chunk_list xs 1 = [xs]"
  proof -
    have "py_slice_step xs 0 1 = map (nth xs) (filter (\<lambda>k. k mod 1 = 0) [0..<length xs])"
      by (rule py_slice_step_filter) simp_all
    also have "\<dots> = xs" by (simp add: map_nth)
    finally show ?thesis by (simp add: chunk_list_def)
  qed
  have g: "(case get_items_chunks st root n of
            Flat ys \<Rightarrow> n = 1 \<and> ys = map (drop (length root)) (glob_all st root)
          | Chunked cs \<Rightarrow> n \<noteq> 1 \<and> length cs = n
              \<and> mset (concat cs) = mset (map (drop (length root)) (glob_all st root)))"
    using mset_concat_chunk_list[OF n, of "map (drop (length root)) (glob_all st root)"]
    by (simp add: get_items_chunks_def Let_def len del: mset_map)
  show ?thesis using len mset_concat_chunk_list[OF n] idx one g by blast
qed

theorem chunk_list_partition_witness:
  "(1::nat) \<le> 3
   \<and> chunk_list [''a'', ''b'', ''c'', ''d'', ''e''] 3 = [[''a'', ''d''], [''b'', ''e''], [''c'']]
   \<and> mset (concat (chunk_list [''a'', ''b'', ''c'', ''d'', ''e''] 3))
       = mset [''a'', ''b'', ''c'', ''d'', ''e'']"
proof -
  have h: "(1::nat) \<le> 3" by simp
  have "chunk_list [''a'', ''b'', ''c'', ''d'', ''e''] 3 = [[''a'', ''d''], [''b'', ''e''], [''c'']]"
    by (simp add: chunk_list_def py_slice_step_def Let_def upt_conv_Cons)
  then show ?thesis
    using h chunk_list_partition[OF h, of "[''a'', ''b'', ''c'', ''d'', ''e'']"] by simp
qed

text \<open>
  C9. Round-robin partitioning keeps the order inside a chunk: for n of at least 1 and
  j below n, chunk j of chunk_list is the sublist of the elements at the indices k with
  k mod n = j, that is j, j + n, j + 2n, ..., in the order of the original list.
\<close>

theorem chunk_list_preserves_order:
  assumes "1 \<le> n" and "j < n"
  shows "chunk_list xs n ! j = nths xs {k. k mod n = j}
       \<and> chunk_list xs n ! j = map (nth xs) (filter (\<lambda>k. k mod n = j) [0..<length xs])
       \<and> subseq (chunk_list xs n ! j) xs"
proof -
  have n: "0 < n" using assms by simp
  have a: "chunk_list xs n ! j = map (nth xs) (filter (\<lambda>k. k mod n = j) [0..<length xs])"
    using py_slice_step_filter[OF n assms(2)] assms(2) by (simp add: chunk_list_def)
  have b: "chunk_list xs n ! j = nths xs {k. k mod n = j}"
    by (simp add: a nths_eq_map_filter)
  have "subseq (nths xs {k. k mod n = j}) xs"
    using subseq_conv_nths by blast
  then show ?thesis using a b by simp
qed

theorem chunk_list_preserves_order_witness:
  "(1::nat) \<le> 2 \<and> (1::nat) < 2
   \<and> chunk_list [''a'', ''b'', ''c'', ''d'', ''e''] 2 ! 1 = [''b'', ''d'']
   \<and> subseq [''b'', ''d''] [''a'', ''b'', ''c'', ''d'', ''e'']"
proof -
  have h1: "(1::nat) \<le> 2" and h2: "(1::nat) < 2" by simp_all
  have c: "chunk_list [''a'', ''b'', ''c'', ''d'', ''e''] 2 ! 1 = [''b'', ''d'']"
    by (simp add: chunk_list_def py_slice_step_def Let_def upt_conv_Cons)
  have "subseq (chunk_list [''a'', ''b'', ''c'', ''d'', ''e''] 2 ! 1) [''a'', ''b'', ''c'', ''d'', ''e'']"
    using chunk_list_preserves_order[OF h1 h2, of "[''a'', ''b'', ''c'', ''d'', ''e'']"] by blast
  then have s: "subseq [''b'', ''d''] [''a'', ''b'', ''c'', ''d'', ''e'']"
    unfolding c .
  show ?thesis
    by (intro conjI h1 h2 c s)
qed


section \<open>Frames, traces and deletion\<close>

lemma emit_simps [simp]:
  "trace (emit ev st) = trace st @ [ev]" "files (emit ev st) = files st"
  "faults (emit ev st) = faults st"
  by (simp_all add: emit_def)

lemma logger_simps [simp]:
  "trace (logger lvl m st) = trace st @ [Log lvl m]" "files (logger lvl m st) = files st"
  "faults (logger lvl m st) = faults st"
  by (simp_all add: logger_def)

lemma put_simps [simp]:
  "trace (put st p n) = trace st" "faults (put st p n) = faults st"
  "files (put st p n) = AList.update p n (files st)"
  by (simp_all add: put_def)

lemma remove_simps [simp]:
  "trace (remove st p) = trace st" "faults (remove st p) = faults st"
  "files (remove st p) = filter (\<lambda>e. fst e \<noteq> p) (files st)"
  by (simp_all add: remove_def)

lemma remove_tree_simps [simp]:
  "trace (remove_tree st p) = trace st" "faults (remove_tree st p) = faults st"
  "files (remove_tree st p) = filter (\<lambda>e. \<not> prefix p (fst e)) (files st)"
  by (simp_all add: remove_tree_def)

lemma lookup_cong: "files st1 = files st \<Longrightarrow> lookup st1 = lookup st"
  by (simp add: fun_eq_iff lookup_def)

lemma queries_cong:
  assumes "files st1 = files st"
  shows "path_exists st1 = path_exists st" "is_file st1 = is_file st" "is_dir st1 = is_dir st"
    "file_bytes st1 = file_bytes st" "under_file st1 = under_file st"
    "children st1 = children st"
proof -
  note l = lookup_cong[OF assms]
  show "path_exists st1 = path_exists st" by (simp add: fun_eq_iff path_exists_def l)
  show f: "is_file st1 = is_file st" by (simp add: fun_eq_iff is_file_def l)
  show "is_dir st1 = is_dir st" by (simp add: fun_eq_iff is_dir_def l)
  show "file_bytes st1 = file_bytes st" by (simp add: fun_eq_iff file_bytes_def l)
  show "under_file st1 = under_file st" by (simp add: fun_eq_iff under_file_def f)
  show "children st1 = children st" by (simp add: fun_eq_iff children_def assms)
qed

lemma query_emit [simp]:
  "lookup (emit ev st) = lookup st" "path_exists (emit ev st) = path_exists st"
  "is_file (emit ev st) = is_file st" "is_dir (emit ev st) = is_dir st"
  "file_bytes (emit ev st) = file_bytes st" "under_file (emit ev st) = under_file st"
  "children (emit ev st) = children st"
  using lookup_cong[of "emit ev st" st] queries_cong[of "emit ev st" st] by simp_all

lemma query_logger [simp]:
  "lookup (logger lvl m st) = lookup st" "path_exists (logger lvl m st) = path_exists st"
  "is_file (logger lvl m st) = is_file st" "is_dir (logger lvl m st) = is_dir st"
  "file_bytes (logger lvl m st) = file_bytes st" "under_file (logger lvl m st) = under_file st"
  "children (logger lvl m st) = children st"
  using lookup_cong[of "logger lvl m st" st] queries_cong[of "logger lvl m st" st] by simp_all

lemma interfere_frame:
  "interfere op st p = Inr st1 \<Longrightarrow> trace st1 = trace st \<and> faults st1 = faults st"
  by (auto simp: interfere_def split: option.splits interference.splits)

lemma open_rb_frame:
  "open_rb st p = (r, st1) \<Longrightarrow> trace st1 = trace st \<and> faults st1 = faults st"
  by (auto simp: open_rb_def split: sum.splits option.splits node.splits dest: interfere_frame)

lemma open_wb_frame:
  "open_wb st p = (r, st1) \<Longrightarrow> trace st1 = trace st \<and> faults st1 = faults st"
  by (auto simp: open_wb_def split: sum.splits option.splits node.splits if_splits
      dest: interfere_frame)

lemma write_bytes_frame:
  "write_bytes st p c = (r, st1) \<Longrightarrow> trace st1 = trace st \<and> faults st1 = faults st"
  by (auto simp: write_bytes_def split: option.splits node.splits interference.splits)

lemma unlink_frame:
  "unlink st p = (r, st1) \<Longrightarrow> trace st1 = trace st \<and> faults st1 = faults st"
  by (auto simp: unlink_def split: sum.splits option.splits node.splits dest: interfere_frame)

lemma rmdir_frame:
  "rmdir st p = (r, st1) \<Longrightarrow> trace st1 = trace st \<and> faults st1 = faults st"
  by (auto simp: rmdir_def split: sum.splits option.splits node.splits if_splits
      dest: interfere_frame)

lemma iterdir_frame:
  "iterdir st p = (r, st1) \<Longrightarrow> trace st1 = trace st \<and> faults st1 = faults st"
  by (auto simp: iterdir_def split: sum.splits option.splits node.splits dest: interfere_frame)

lemma foldl_mkdir_frame:
  "trace (foldl (\<lambda>s q. if path_exists s q then s else put s q Dir) st qs) = trace st
   \<and> faults (foldl (\<lambda>s q. if path_exists s q then s else put s q Dir) st qs) = faults st"
  by (induction qs arbitrary: st) auto

lemma mkdir_parents_frame:
  "mkdir_parents st p = (r, st1) \<Longrightarrow> trace st1 = trace st \<and> faults st1 = faults st"
  by (auto simp: mkdir_parents_def foldl_mkdir_frame split: sum.splits if_splits
      dest: interfere_frame)

lemma copy_loop_frame:
  "copy_loop st src dst n rest = (r, st1) \<Longrightarrow> trace st1 = trace st \<and> faults st1 = faults st"
proof (induction st src dst n rest arbitrary: r st1 rule: copy_loop.induct)
  case (1 st src dst n rest)
  show ?case
  proof (cases "read_error st src")
    case (Some e)
    with "1.prems" show ?thesis by (simp add: copy_loop.simps[of st])
  next
    case None
    show ?thesis
    proof (cases "take n rest = []")
      case True
      with None "1.prems" show ?thesis by (simp add: copy_loop.simps[of st])
    next
      case False
      obtain w st2 where w: "write_bytes st dst (take n rest) = (w, st2)" by force
      show ?thesis
      proof (cases w)
        case (Inl e)
        with None False w "1.prems" write_bytes_frame[OF w] show ?thesis
          by (simp add: copy_loop.simps[of st])
      next
        case (Inr u)
        with None False w "1.prems" have "copy_loop st2 src dst n (drop n rest) = (r, st1)"
          by (simp add: copy_loop.simps[of st])
        from "1.IH"[OF None False w[symmetric] Inr this] write_bytes_frame[OF w]
        show ?thesis by simp
      qed
    qed
  qed
qed

lemma tx_refl [simp]: "tx P st st"
  by (simp add: tx_def)

lemma tx_trans: "tx P st st1 \<Longrightarrow> tx P st1 st2 \<Longrightarrow> tx P st st2"
  by (auto simp: tx_def)

lemma tx_frame: "trace st1 = trace st \<and> faults st1 = faults st \<Longrightarrow> tx P st st1"
  by (simp add: tx_def)

lemma tx_emit: "P ev \<Longrightarrow> tx P st st1 \<Longrightarrow> tx P st (emit ev st1)"
  by (auto simp: tx_def)

lemma tx_logger: "P (Log lvl m) \<Longrightarrow> tx P st st1 \<Longrightarrow> tx P st (logger lvl m st1)"
  by (auto simp: tx_def)

lemma tx_emit_first: "P ev \<Longrightarrow> tx P (emit ev st) st1 \<Longrightarrow> tx P st st1"
  by (auto simp: tx_def)

lemma tx_mono: "tx P st st1 \<Longrightarrow> (\<And>e. P e \<Longrightarrow> Q e) \<Longrightarrow> tx Q st st1"
  by (auto simp: tx_def list_all_iff)

lemma tx_new_events: "tx P st st1 \<Longrightarrow> trace st1 = trace st @ new_events st st1 \<and> list_all P (new_events st st1)"
  by (auto simp: tx_def new_events_def)

lemma calculate_checksum_tx:
  assumes "calculate_checksum md5 st p = (r, st1)"
  shows "tx is_propagate_event st st1"
proof -
  let ?s = "emit (Call_calculate_checksum p) st"
  obtain ro so where o: "open_rb ?s p = (ro, so)" by force
  have f: "tx is_propagate_event st so"
    using open_rb_frame[OF o] by (simp add: tx_def)
  show ?thesis
    using assms o f
    by (auto simp: calculate_checksum_def Let_def split: sum.splits option.splits if_splits
        intro!: tx_logger)
qed

lemma create_folder_tx:
  assumes "create_folder st p = (r, st1)"
  shows "tx is_propagate_event st st1"
proof -
  let ?s = "emit (Call_create_folder p) st"
  obtain ro so where o: "mkdir_parents ?s p = (ro, so)" by force
  have f: "tx is_propagate_event st so"
    using mkdir_parents_frame[OF o] by (simp add: tx_def)
  have g: "tx is_propagate_event st ?s" by (simp add: tx_def)
  show ?thesis
    using assms o f g
    by (auto simp: create_folder_def Let_def split: sum.splits if_splits intro!: tx_logger)
qed

lemma copy_or_replace_file_tx:
  assumes "copy_or_replace_file st src dst rp n = (r, st1)"
  shows "tx is_propagate_event st st1 \<and> r = Inr ()"
proof -
  let ?s = "emit (Call_copy_or_replace_file src dst rp) st"
  obtain ro so where o: "open_rb ?s src = (ro, so)" by force
  obtain rw sw where w: "open_wb so dst = (rw, sw)" by force
  obtain rc sc where c: "copy_loop sw src dst n (file_bytes sw src) = (rc, sc)" by force
  have f1: "tx is_propagate_event st so"
    using open_rb_frame[OF o] by (simp add: tx_def)
  have f2: "tx is_propagate_event st sw"
    using open_rb_frame[OF o] open_wb_frame[OF w] by (simp add: tx_def)
  have f3: "tx is_propagate_event st sc"
    using open_rb_frame[OF o] open_wb_frame[OF w] copy_loop_frame[OF c] by (simp add: tx_def)
  show ?thesis
    using assms o w c f1 f2 f3
    by (auto simp: copy_or_replace_file_def Let_def split: sum.splits if_splits
        intro!: tx_logger)
qed

lemma replicate_file_tx:
  assumes "replicate_file md5 st src dst = (r, st1)"
  shows "tx is_propagate_event st st1"
proof -
  let ?s = "emit (Call_replicate_file src dst) st"
  have g: "tx is_propagate_event st ?s" by (simp add: tx_def)
  show ?thesis
  proof (cases "path_exists st dst")
    case False
    with assms have "copy_or_replace_file ?s src dst False (1024 * 1024) = (r, st1)"
      by (simp add: replicate_file_def Let_def)
    from copy_or_replace_file_tx[OF this] g show ?thesis by (blast intro: tx_trans)
  next
    case True
    obtain r1 s1 where c1: "calculate_checksum md5 ?s src = (r1, s1)" by force
    note t1 = tx_trans[OF g calculate_checksum_tx[OF c1]]
    show ?thesis
    proof (cases r1)
      case (Inl e)
      with assms True c1 t1 show ?thesis by (simp add: replicate_file_def Let_def)
    next
      case (Inr d1)
      obtain r2 s2 where c2: "calculate_checksum md5 s1 dst = (r2, s2)" by force
      note t2 = tx_trans[OF t1 calculate_checksum_tx[OF c2]]
      show ?thesis
      proof (cases r2)
        case (Inl e)
        with assms True c1 c2 Inr t2 show ?thesis by (simp add: replicate_file_def Let_def)
      next
        case d2: (Inr d2)
        show ?thesis
        proof (cases "d1 = d2")
          case True
          with assms \<open>path_exists st dst\<close> c1 c2 Inr d2 t2 show ?thesis
            by (simp add: replicate_file_def Let_def)
        next
          case False
          with assms \<open>path_exists st dst\<close> c1 c2 Inr d2
          have "copy_or_replace_file s2 src dst True (1024 * 1024) = (r, st1)"
            by (simp add: replicate_file_def Let_def)
          from copy_or_replace_file_tx[OF this] t2 show ?thesis by (blast intro: tx_trans)
        qed
      qed
    qed
  qed
qed

lemma synchronize_item_tx:
  assumes "synchronize_item md5 st item src rep = (r, st1)"
  shows "tx is_propagate_event st st1"
  using assms
  by (auto simp: synchronize_item_def Let_def split: if_splits
      intro: create_folder_tx replicate_file_tx)

lemma synchronize_loop_tx:
  "synchronize_loop md5 st items src rep = (r, st1) \<Longrightarrow> tx is_propagate_event st st1"
proof (induction items arbitrary: st)
  case Nil
  then show ?case by simp
next
  case (Cons item rest)
  obtain r0 s0 where i: "synchronize_item md5 st item src rep = (r0, s0)" by force
  note t = synchronize_item_tx[OF i]
  show ?case
  proof (cases r0)
    case (Inl e)
    with Cons.prems i t show ?thesis by simp
  next
    case (Inr u)
    with Cons.prems i have "synchronize_loop md5 s0 rest src rep = (r, st1)" by simp
    from Cons.IH[OF this] t show ?thesis by (rule tx_trans[rotated])
  qed
qed

lemma shrinks_refl [simp]: "shrinks st st"
  by (auto simp: shrinks_def intro: exI[of _ "\<lambda>_. True"])

lemma shrinks_trans: "shrinks st st1 \<Longrightarrow> shrinks st1 st2 \<Longrightarrow> shrinks st st2"
  by (auto simp: shrinks_def)

lemma shrinks_files: "files st1 = files st \<Longrightarrow> shrinks st st1"
  by (auto simp: shrinks_def intro: exI[of _ "\<lambda>_. True"])

lemma shrinks_emit [simp]: "shrinks st (emit ev st1) = shrinks st st1"
  "shrinks st (logger lvl m st1) = shrinks st st1"
  by (simp_all add: shrinks_def)

lemma shrinks_remove [simp]: "shrinks st (remove st p)" "shrinks st (remove_tree st p)"
  by (auto simp: shrinks_def)

lemma interfere_shrinks: "interfere op st p = Inr st1 \<Longrightarrow> shrinks st st1"
  by (auto simp: interfere_def split: option.splits interference.splits)

lemma unlink_shrinks: "unlink st p = (r, st1) \<Longrightarrow> shrinks st st1"
  by (auto simp: unlink_def split: sum.splits option.splits node.splits
      dest!: interfere_shrinks intro: shrinks_trans)

lemma rmdir_shrinks: "rmdir st p = (r, st1) \<Longrightarrow> shrinks st st1"
  by (auto simp: rmdir_def split: sum.splits option.splits node.splits if_splits
      dest!: interfere_shrinks intro: shrinks_trans)

lemma iterdir_shrinks: "iterdir st p = (r, st1) \<Longrightarrow> shrinks st st1"
  by (auto simp: iterdir_def split: sum.splits option.splits node.splits
      dest!: interfere_shrinks)

lemma iterdir_entries:
  "iterdir st p = (Inr entries, st1) \<Longrightarrow> entries = children st1 p"
  by (auto simp: iterdir_def split: sum.splits option.splits node.splits)

lemma below_shrinks: "shrinks st st1 \<Longrightarrow> below st1 q \<le> below st q"
proof -
  assume "shrinks st st1"
  then obtain P where P: "files st1 = filter P (files st)" by (auto simp: shrinks_def)
  let ?Q = "\<lambda>e. strict_prefix q (fst e)"
  have "filter ?Q (filter P (files st)) = filter P (filter ?Q (files st))"
    by (simp add: conj_commute)
  moreover have "length (filter P (filter ?Q (files st))) \<le> length (filter ?Q (files st))"
    by (rule length_filter_le)
  ultimately show ?thesis
    by (simp only: below_def P)
qed

lemma below_le_length: "below st q \<le> length (files st)"
  by (simp add: below_def)

lemma pruned_refl [simp]: "pruned st st"
  by (simp add: pruned_def)

lemma pruned_trans: "pruned st st1 \<Longrightarrow> pruned st1 st2 \<Longrightarrow> pruned st st2"
  by (auto simp: pruned_def intro: tx_trans shrinks_trans)

lemma unlink_pruned: "unlink st p = (r, st1) \<Longrightarrow> pruned st st1"
  by (simp add: pruned_def unlink_shrinks tx_frame unlink_frame)

lemma rmdir_pruned: "rmdir st p = (r, st1) \<Longrightarrow> pruned st st1"
  by (simp add: pruned_def rmdir_shrinks tx_frame rmdir_frame)

lemma iterdir_pruned: "iterdir st p = (r, st1) \<Longrightarrow> pruned st st1"
  by (simp add: pruned_def iterdir_shrinks tx_frame iterdir_frame)

lemma pruned_emit: "is_prune_event ev \<Longrightarrow> pruned st st1 \<Longrightarrow> pruned st (emit ev st1)"
  by (simp add: pruned_def tx_emit)

lemma pruned_logger:
  "\<not> propagate_message m \<Longrightarrow> pruned st st1 \<Longrightarrow> pruned st (logger lvl m st1)"
  by (simp add: pruned_def tx_logger)

lemma delete_items_pruned:
  assumes rec: "\<And>s q r s1. rec s q = Some (r, s1) \<Longrightarrow> pruned s s1"
  shows "delete_items rec st entries = Some (r, st1) \<Longrightarrow> pruned st st1"
proof (induction entries arbitrary: st)
  case Nil
  then show ?case by simp
next
  case (Cons item rest)
  show ?case
  proof (cases "is_dir st item")
    case True
    with Cons.prems obtain r0 s0 where r0: "rec st item = Some (r0, s0)"
      by (auto split: option.splits)
    note p0 = rec[OF r0]
    show ?thesis
    proof (cases r0)
      case (Inl e)
      with Cons.prems True r0 p0 show ?thesis by simp
    next
      case (Inr u)
      with Cons.prems True r0 have "delete_items rec s0 rest = Some (r, st1)" by simp
      from pruned_trans[OF p0 Cons.IH[OF this]] show ?thesis .
    qed
  next
    case False
    obtain r0 s0 where r0: "unlink st item = (r0, s0)" by force
    note p0 = unlink_pruned[OF r0]
    show ?thesis
    proof (cases r0)
      case (Inl e)
      with Cons.prems False r0 p0 show ?thesis by simp
    next
      case (Inr u)
      with Cons.prems False r0 have "delete_items rec s0 rest = Some (r, st1)" by simp
      from pruned_trans[OF p0 Cons.IH[OF this]] show ?thesis .
    qed
  qed
qed

lemma delete_path_Suc:
  "delete_path (Suc n) st0 p =
     (case delete_body n (emit (Call_delete_path p) st0) p of
        None \<Rightarrow> None
      | Some (Inr u, st4) \<Rightarrow> Some (Inr (), st4)
      | Some (Inl e, st4) \<Rightarrow>
          Some (Inr (),
            if e = FileNotFoundError then
              (if is_file st4 p then logger WARNING (File_already_deleted p) st4
               else if is_dir st4 p then logger WARNING (Folder_already_deleted p) st4
               else st4)
            else logger ERROR (Delete_error p e) st4))"
  by (simp add: delete_body_def Let_def)

declare delete_path.simps(2) [simp del]

lemma delete_body_pruned:
  assumes rec: "\<And>s q r s1. delete_path n s q = Some (r, s1) \<Longrightarrow> pruned s s1"
    and b: "delete_body n st p = Some (r, st1)"
  shows "pruned st st1"
proof (cases "is_file st p")
  case True
  obtain r0 s0 where u: "unlink st p = (r0, s0)" by force
  from b True u unlink_pruned[OF u] show ?thesis
    by (auto simp: delete_body_def split: sum.splits intro: pruned_logger)
next
  case False
  show ?thesis
  proof (cases "is_dir st p")
    case nd: False
    with b False show ?thesis by (simp add: delete_body_def)
  next
    case True
    obtain r0 s0 where i: "iterdir st p = (r0, s0)" by force
    note p0 = iterdir_pruned[OF i]
    show ?thesis
    proof (cases r0)
      case (Inl e)
      with b False True i p0 show ?thesis by (simp add: delete_body_def)
    next
      case (Inr entries)
      with b False True i obtain r2 s2 where
        d: "delete_items (delete_path n) s0 entries = Some (r2, s2)"
        by (auto simp: delete_body_def split: option.splits)
      note p2 = pruned_trans[OF p0 delete_items_pruned[OF rec d]]
      show ?thesis
      proof (cases r2)
        case (Inl e)
        with b False True i Inr d p2 show ?thesis by (simp add: delete_body_def)
      next
        case u: (Inr u)
        obtain r3 s3 where m: "rmdir s2 p = (r3, s3)" by force
        note p3 = pruned_trans[OF p2 rmdir_pruned[OF m]]
        from b False True i Inr d u m p3 show ?thesis
          by (auto simp: delete_body_def split: sum.splits intro: pruned_logger)
      qed
    qed
  qed
qed

lemma delete_path_pruned:
  "delete_path n st p = Some (r, st1) \<Longrightarrow> pruned st st1 \<and> r = Inr ()"
proof (induction n arbitrary: st p r st1)
  case 0
  then show ?case by simp
next
  case (Suc n)
  let ?s = "emit (Call_delete_path p) st"
  from Suc.prems obtain r0 s0 where b: "delete_body n ?s p = Some (r0, s0)"
    by (auto simp: delete_path_Suc split: option.splits)
  have rec: "\<And>s q r s1. delete_path n s q = Some (r, s1) \<Longrightarrow> pruned s s1"
    using Suc.IH by blast
  have e: "pruned st ?s" by (simp add: pruned_def tx_def)
  note p0 = pruned_trans[OF e delete_body_pruned[OF rec b]]
  from Suc.prems b p0 show ?case
    by (auto simp: delete_path_Suc split: sum.splits if_splits intro: pruned_logger)
qed

lemma below_emit [simp]: "below (emit ev st) q = below st q"
  by (simp add: below_def)

lemma delete_items_total:
  assumes rec: "\<And>s q. below s q < n \<Longrightarrow> delete_path n s q \<noteq> None"
  shows "\<forall>item \<in> set entries. below st item < n \<Longrightarrow>
         delete_items (delete_path n) st entries \<noteq> None"
proof (induction entries arbitrary: st)
  case Nil
  then show ?case by simp
next
  case (Cons item rest)
  show ?case
  proof (cases "is_dir st item")
    case True
    from Cons.prems have "below st item < n" by simp
    from rec[OF this] obtain r0 s0 where r0: "delete_path n st item = Some (r0, s0)"
      by auto
    from delete_path_pruned[OF r0] have sh: "shrinks st s0" and ok: "r0 = Inr ()"
      by (simp_all add: pruned_def)
    have "\<forall>i \<in> set rest. below s0 i < n"
      using Cons.prems below_shrinks[OF sh] by (auto intro: le_less_trans)
    from Cons.IH[OF this] True r0 ok show ?thesis by simp
  next
    case False
    obtain r0 s0 where r0: "unlink st item = (r0, s0)" by force
    have sh: "shrinks st s0" using unlink_shrinks[OF r0] .
    have "\<forall>i \<in> set rest. below s0 i < n"
      using Cons.prems below_shrinks[OF sh] by (auto intro: le_less_trans)
    from Cons.IH[OF this] False r0 show ?thesis by (cases r0) simp_all
  qed
qed

lemma delete_path_total:
  "below st p < n \<Longrightarrow> delete_path n st p \<noteq> None"
proof (induction n arbitrary: st p)
  case 0
  then show ?case by simp
next
  case (Suc n)
  let ?s = "emit (Call_delete_path p) st"
  have "delete_body n ?s p \<noteq> None"
  proof (cases "is_file ?s p")
    case True
    then show ?thesis by (auto simp: delete_body_def split: prod.splits sum.splits)
  next
    case False
    show ?thesis
    proof (cases "is_dir ?s p")
      case nd: False
      with False show ?thesis by (simp add: delete_body_def)
    next
      case True
      obtain r0 s0 where i: "iterdir ?s p = (r0, s0)" by force
      show ?thesis
      proof (cases r0)
        case (Inl e)
        with False True i show ?thesis by (simp add: delete_body_def)
      next
        case (Inr entries)
        have sh: "shrinks ?s s0" using iterdir_shrinks[OF i] .
        have en: "entries = children s0 p" using iterdir_entries i Inr by blast
        have "\<forall>item \<in> set entries. below s0 item < n"
        proof
          fix item assume "item \<in> set entries"
          then have "below s0 item < below s0 p" using en below_child_less by blast
          also have "\<dots> \<le> below ?s p" using below_shrinks[OF sh] .
          finally show "below s0 item < n" using Suc.prems by simp
        qed
        from delete_items_total[of n entries s0, OF Suc.IH this]
        obtain r2 s2 where d: "delete_items (delete_path n) s0 entries = Some (r2, s2)"
          by auto
        from False True i Inr d show ?thesis
          by (auto simp: delete_body_def split: sum.splits prod.splits)
      qed
    qed
  qed
  then show ?case by (auto simp: delete_path_Suc split: sum.splits)
qed

lemma delete_path_call_returns:
  "\<exists>st1. delete_path_call st p = Some (Inr (), st1) \<and> pruned st st1"
proof -
  have "below st p < Suc (length (files st))"
    using below_le_length[of st p] by simp
  from delete_path_total[OF this] obtain r st1 where
    d: "delete_path (Suc (length (files st))) st p = Some (r, st1)" by auto
  from delete_path_pruned[OF d] d show ?thesis by (auto simp: delete_path_call_def)
qed

lemma clean_up_item_returns:
  "\<exists>st1. clean_up_item st item src rep = Some (Inr (), st1) \<and> pruned st st1"
  using delete_path_call_returns[of st "rep @ item"]
  by (auto simp: clean_up_item_def Let_def)

lemma clean_up_loop_returns:
  "\<exists>st1. clean_up_loop st entries src rep = Some (Inr (), st1) \<and> pruned st st1"
proof (induction entries arbitrary: st)
  case Nil
  then show ?case by simp
next
  case (Cons item rest)
  from clean_up_item_returns[of st item src rep] obtain s0 where
    i: "clean_up_item st item src rep = Some (Inr (), s0)" and p: "pruned st s0" by auto
  from Cons.IH[of s0] obtain s1 where
    l: "clean_up_loop s0 rest src rep = Some (Inr (), s1)" and q: "pruned s0 s1" by auto
  from i l pruned_trans[OF p q] show ?case by simp
qed

section \<open>Claims about single entries\<close>

lemmas model_defs =
  observe_def quiet_def example_md5_def Let_def
  emit_def logger_def lookup_def path_exists_def is_file_def is_dir_def file_bytes_def
  under_file_def children_def put_def remove_def remove_tree_def interfere_def
  open_rb_def open_wb_def write_bytes_def read_error_def mkdir_parents_def unlink_def
  rmdir_def iterdir_def glob_all_def get_items_chunks_def chunk_list_def py_slice_step_def
  calculate_checksum_def create_folder_def copy_or_replace_file_def replicate_file_def
  delete_path_call_def delete_path_Suc delete_body_def
  synchronize_item_def synchronize_folders_def clean_up_item_def clean_up_replica_def
  process_without_threads_def start_threads_def process_with_threads_def
  process_syncronization_def new_events_def

text \<open>
  C10. In the propagate phase, an entry whose source path is, when it is handled, neither
  a directory nor a regular file is skipped: nothing is done for it, the state (files and
  trace) is unchanged, no error is raised, and the loop, or the worker thread, goes on
  with the next entry.
\<close>

theorem synchronize_skips_missing_entry:
  assumes "\<not> is_dir st (source_path @ item_path)"
    and "\<not> is_file st (source_path @ item_path)"
  shows "synchronize_item md5 st item_path source_path replica_path = (Inr (), st)
       \<and> synchronize_loop md5 st (item_path # rest) source_path replica_path
           = synchronize_loop md5 st rest source_path replica_path
       \<and> thread_step md5 source_path replica_path st
             (Running Target_synchronize_folders (item_path # rest))
           = Some (Running Target_synchronize_folders rest, st)"
  using assms by (simp add: synchronize_item_def)

theorem synchronize_skips_missing_entry_witness:
  "\<not> is_dir state_missing_entry ([''s''] @ [''gone''])
   \<and> \<not> is_file state_missing_entry ([''s''] @ [''gone''])
   \<and> synchronize_item example_md5 state_missing_entry [''gone''] [''s''] [''r'']
       = (Inr (), state_missing_entry)
   \<and> synchronize_loop example_md5 state_missing_entry [[''gone''], [''b'']] [''s''] [''r'']
       = synchronize_loop example_md5 state_missing_entry [[''b'']] [''s''] [''r'']"
proof -
  have d: "\<not> is_dir state_missing_entry ([''s''] @ [''gone''])"
    by (simp add: is_dir_def lookup_def state_missing_entry_def)
  have f: "\<not> is_file state_missing_entry ([''s''] @ [''gone''])"
    by (simp add: is_file_def lookup_def state_missing_entry_def)
  show ?thesis
    using d f synchronize_skips_missing_entry[OF d f, of example_md5 "[''r'']" "[[''b'']]"]
    by simp
qed

text \<open>
  C3, at the input where it fails. The source is a regular file and the replica path lies
  in a folder that does not exist, so opening the destination raises FileNotFoundError
  inside copy_or_replace_file. The exception is caught there and logged;
  replicate_file returns normally and nothing is copied.
\<close>

theorem replicate_file_swallows_copy_failure:
  "observe (replicate_file example_md5 state_no_parent [''s'', ''a''] [''r'', ''d'', ''a''])
   = (Inr (),
      [([], Dir), ([''s''], Dir), ([''r''], Dir), ([''s'', ''a''], File ''X'')],
      [Call_replicate_file [''s'', ''a''] [''r'', ''d'', ''a''],
       Call_copy_or_replace_file [''s'', ''a''] [''r'', ''d'', ''a''] False,
       Log ERROR (Failed_copy [''s'', ''a''] [''r'', ''d'', ''a''] FileNotFoundError)])"
  by (simp add: model_defs state_no_parent_def)

text \<open>
  C8, at the input where it fails. The target is a regular file when delete_path tests
  it and is gone when it is unlinked: unlink raises FileNotFoundError, the handler finds
  neither a file nor a directory and logs nothing. delete_path returns normally; the
  trace holds the call and no log record.
\<close>

theorem delete_path_vanished_target_not_logged:
  "map_option observe (delete_path_call state_vanishing [''r'', ''stale''])
   = Some (Inr (), [([], Dir), ([''r''], Dir)], [Call_delete_path [''r'', ''stale'']])"
  by (simp add: model_defs state_vanishing_def)

end
